theory Spec2Isabelle
  imports Main
begin

section \<open>Buffered channels\<close>

text \<open>
  A frame or payload is a Go \<^verbatim>\<open>[]byte\<close>; a \<^verbatim>\<open>*client\<close> is the address of the client
  object. The \<^verbatim>\<open>receive\<close> field of a client is a buffered channel: its pending entries in
  FIFO order, its capacity (fixed by \<^verbatim>\<open>make\<close>) and whether \<^verbatim>\<open>close\<close> was called on it.
\<close>

type_synonym bytes = string
type_synonym cid = nat

record chan =
  buf :: "bytes list"
  cap :: nat
  closed :: bool

definition messageBufferSize :: nat where
  "messageBufferSize = 256"

definition make_chan :: "nat \<Rightarrow> chan" where
  "make_chan n = \<lparr>buf = [], cap = n, closed = False\<rparr>"

text \<open>
  What one channel operation does when the goroutine reaches it: it completes with a
  value, it cannot complete yet (the goroutine is suspended), or it panics.
\<close>

datatype 'a attempt = Ok 'a | Blocks | Panics

text \<open>\<^verbatim>\<open>ch <- m\<close>: panics on a closed channel, waits while the buffer is full.\<close>

definition chan_send :: "bytes \<Rightarrow> chan \<Rightarrow> chan attempt" where
  "chan_send m ch =
     (if closed ch then Panics
      else if length (buf ch) < cap ch then Ok (ch\<lparr>buf := buf ch @ [m]\<rparr>)
      else Blocks)"

text \<open>\<^verbatim>\<open>close(ch)\<close>: panics when the channel is closed already.\<close>

definition chan_close :: "chan \<Rightarrow> chan attempt" where
  "chan_close ch = (if closed ch then Panics else Ok (ch\<lparr>closed := True\<rparr>))"

text \<open>
  \<^verbatim>\<open><-ch\<close> as \<^verbatim>\<open>range\<close> uses it: the oldest entry, or \<open>None\<close> for the end of the
  stream once the channel is closed and drained; waits on an open empty channel.
\<close>

definition chan_recv :: "chan \<Rightarrow> (bytes option \<times> chan) attempt" where
  "chan_recv ch =
     (case buf ch of
        m # ms \<Rightarrow> Ok (Some m, ch\<lparr>buf := ms\<rparr>)
      | [] \<Rightarrow> if closed ch then Ok (None, ch) else Blocks)"

section \<open>The room and its run loop\<close>

text \<open>
  The state the loop of \<^verbatim>\<open>run\<close> works on: the map \<^verbatim>\<open>r.clients\<close> and, for every
  client address, the channel behind \<^verbatim>\<open>client.receive\<close>.
\<close>

record room =
  clients :: "cid \<rightharpoonup> bool"
  receive :: "cid \<Rightarrow> chan"

text \<open>
  One value taken from \<^verbatim>\<open>r.join\<close>, \<^verbatim>\<open>r.leave\<close> or \<^verbatim>\<open>r.forward\<close>. Go leaves the order in
  which \<^verbatim>\<open>range\<close> visits the keys of a map open, so a forward carries the order the
  runtime picked for this pass.
\<close>

datatype request = Join cid | Leave cid | Forward bytes "cid list"

definition range_order :: "(cid \<rightharpoonup> bool) \<Rightarrow> cid list \<Rightarrow> bool" where
  "range_order m ks = (distinct ks \<and> set ks = dom m)"

text \<open>
  How far one iteration of the loop gets: back to the \<^verbatim>\<open>select\<close>, suspended in the send
  to one client with the rest of the pass still to do, or a panic of the process.
\<close>

datatype outcome = Done room | Blocked cid "cid list" room | Panicked

text \<open>\<^verbatim>\<open>for client := range r.clients { client.receive <- msg }\<close>\<close>

fun forward_loop :: "bytes \<Rightarrow> cid list \<Rightarrow> room \<Rightarrow> outcome" where
  "forward_loop msg [] r = Done r"
| "forward_loop msg (c # cs) r =
     (case chan_send msg (receive r c) of
        Panics \<Rightarrow> Panicked
      | Blocks \<Rightarrow> Blocked c cs r
      | Ok ch \<Rightarrow> forward_loop msg cs (r\<lparr>receive := (receive r)(c := ch)\<rparr>))"

fun run_step :: "request \<Rightarrow> room \<Rightarrow> outcome" where
  "run_step (Join c) r = Done (r\<lparr>clients := (clients r)(c \<mapsto> True)\<rparr>)"
| "run_step (Leave c) r =
     (let r' = r\<lparr>clients := (clients r)(c := None)\<rparr> in
      case chan_close (receive r' c) of
        Ok ch \<Rightarrow> Done (r'\<lparr>receive := (receive r')(c := ch)\<rparr>)
      | _ \<Rightarrow> Panicked)"
| "run_step (Forward msg ks) r = forward_loop msg ks r"

text \<open>The loop over the requests in the order the \<^verbatim>\<open>select\<close> takes them.\<close>

fun run :: "request list \<Rightarrow> room \<Rightarrow> outcome" where
  "run [] r = Done r"
| "run (q # qs) r =
     (case run_step q r of
        Done r' \<Rightarrow> run qs r'
      | out \<Rightarrow> out)"

section \<open>The goroutines of one client\<close>

text \<open>
  \<^verbatim>\<open>write\<close>: \<^verbatim>\<open>for msg := range c.receive\<close> writes each entry to the socket and returns at
  the first write error or when the channel is closed and drained. \<^verbatim>\<open>WriteMessage\<close> belongs
  to the websocket library and is a parameter: \<open>None\<close> is its error. The function runs the
  goroutine on what the channel holds: it ends returned, or waiting in the receive.
\<close>

datatype wstate = Returned | Waiting

function client_write ::
  "(bytes \<Rightarrow> 's \<Rightarrow> 's option) \<Rightarrow> chan \<Rightarrow> 's \<Rightarrow> wstate \<times> chan \<times> 's" where
  "client_write writeMessage ch sock =
     (case chan_recv ch of
        Ok (Some msg, ch') \<Rightarrow>
          (case writeMessage msg sock of
             None \<Rightarrow> (Returned, ch', sock)
           | Some sock' \<Rightarrow> client_write writeMessage ch' sock')
      | Ok (None, ch') \<Rightarrow> (Returned, ch', sock)
      | _ \<Rightarrow> (Waiting, ch, sock))"
  by pat_completeness auto
termination
  by (relation "measure (\<lambda>(w, ch, s). length (buf ch))")
     (auto simp: chan_recv_def split: list.splits if_splits)

text \<open>
  \<^verbatim>\<open>read\<close>: each result of \<^verbatim>\<open>ReadMessage\<close> is a message or an error. The loop returns at
  the first error; a message is put with the client's name into a map, encoded by
  \<^verbatim>\<open>json.Marshal\<close> (a parameter: the encoder is the standard library's) and sent to
  \<^verbatim>\<open>c.room.forward\<close>; on an encoding error the loop goes on with the next message. The
  result is the payloads sent to \<^verbatim>\<open>forward\<close>, in order.
\<close>

datatype frame = Message bytes | ReadError

definition outgoing :: "string \<Rightarrow> bytes \<Rightarrow> (string \<rightharpoonup> string)" where
  "outgoing name msg = [''name'' \<mapsto> name, ''message'' \<mapsto> msg]"

fun client_read ::
  "((string \<rightharpoonup> string) \<Rightarrow> 'e + bytes) \<Rightarrow> string \<Rightarrow> frame list \<Rightarrow> bytes list" where
  "client_read marshal name [] = []"
| "client_read marshal name (ReadError # fs) = []"
| "client_read marshal name (Message msg # fs) =
     (case marshal (outgoing name msg) of
        Inl err \<Rightarrow> client_read marshal name fs
      | Inr jsMessage \<Rightarrow> jsMessage # client_read marshal name fs)"

section \<open>The registry of rooms\<close>

text \<open>
  \<^verbatim>\<open>var rooms = make(map[string]*room)\<close> with the allocator behind \<^verbatim>\<open>newRoom\<close> and the
  goroutines started by \<^verbatim>\<open>go room.run()\<close>. A \<^verbatim>\<open>*room\<close> is the address of the room object:
  the objects are numbered in the order \<^verbatim>\<open>newRoom\<close> makes them.
\<close>

record server =
  rooms :: "string \<rightharpoonup> nat"
  made :: nat
  running :: "nat list"

definition server0 :: server where
  "server0 = \<lparr>rooms = Map.empty, made = 0, running = []\<rparr>"

text \<open>
  \<^verbatim>\<open>newRoom\<close> allocates the next room object. \<^verbatim>\<open>getRoom\<close> holds \<^verbatim>\<open>mu\<close> from its first
  statement to its return, so a call is one step on the registry and concurrent calls
  take effect one after the other.
\<close>

definition newRoom :: "server \<Rightarrow> nat \<times> server" where
  "newRoom s = (made s, s\<lparr>made := Suc (made s)\<rparr>)"

definition getRoom :: "string \<Rightarrow> server \<Rightarrow> nat \<times> server" where
  "getRoom name s =
     (case rooms s name of
        Some room \<Rightarrow> (room, s)
      | None \<Rightarrow>
          (let (room, s1) = newRoom s;
               s2 = s1\<lparr>rooms := (rooms s1)(name \<mapsto> room)\<rparr>;
               s3 = s2\<lparr>running := running s2 @ [room]\<rparr>
           in (room, s3)))"

text \<open>Calls of \<^verbatim>\<open>getRoom\<close> in the order they take the lock, with what each returns.\<close>

fun getRooms :: "string list \<Rightarrow> server \<Rightarrow> nat list \<times> server" where
  "getRooms [] s = ([], s)"
| "getRooms (n # ns) s =
     (let (p, s1) = getRoom n s; (ps, s2) = getRooms ns s1 in (p # ps, s2))"

section \<open>The upgrade route\<close>

text \<open>
  A request is its parsed query (\<^verbatim>\<open>req.URL.Query()\<close>, a \<^verbatim>\<open>map[string][]string\<close>);
  \<^verbatim>\<open>Get\<close> is the first value of a key, or the empty string.
\<close>

record http_request =
  query :: "string \<rightharpoonup> string list"

definition query_get :: "string \<Rightarrow> (string \<rightharpoonup> string list) \<Rightarrow> string" where
  "query_get key q = (case q key of Some (v # vs) \<Rightarrow> v | _ \<Rightarrow> [])"

definition StatusBadRequest :: nat where
  "StatusBadRequest = 400"

text \<open>\<^verbatim>\<open>fmt.Sprintf("user%d", n)\<close>\<close>

function decimal :: "nat \<Rightarrow> string" where
  "decimal n = (if n < 10 then [char_of (48 + n)] else decimal (n div 10) @ [char_of (48 + n mod 10)])"
  by pat_completeness auto
termination
  by (relation "measure id") auto

declare decimal.simps [simp del]

text \<open>
  The client object; \<open>room_of\<close> and \<open>recv\<close> are the fields \<^verbatim>\<open>room\<close> and \<^verbatim>\<open>receive\<close> of
  the struct.
\<close>

record 's client =
  socket :: 's
  room_of :: nat
  recv :: chan
  name :: string

text \<open>
  What the handler has done when it returns or reaches \<^verbatim>\<open>realRoom.join <- client\<close>: an
  error reply written by \<^verbatim>\<open>http.Error\<close>, a failed upgrade (logged, nothing else), or a
  client made and handed to the join channel of its room.
\<close>

datatype 's reply = HttpError nat string | UpgradeFailed | JoinSent "'s client"

text \<open>
  \<^verbatim>\<open>ServeHTTP\<close>. \<^verbatim>\<open>upgrader.Upgrade\<close> is the websocket library's and a parameter (\<open>None\<close>
  is its error); \<open>n\<close> is the value of \<^verbatim>\<open>rand.Intn(1000)\<close>.
\<close>

definition ServeHTTP ::
  "(http_request \<Rightarrow> 's option) \<Rightarrow> nat \<Rightarrow> http_request \<Rightarrow> server \<Rightarrow> 's reply \<times> server" where
  "ServeHTTP upgrade n req s =
     (let roomName = query_get ''room'' (query req) in
      if roomName = [] then (HttpError StatusBadRequest ''Missing room parameter'', s)
      else
        (let (realRoom, s1) = getRoom roomName s in
         case upgrade req of
           None \<Rightarrow> (UpgradeFailed, s1)
         | Some sock \<Rightarrow>
             (JoinSent \<lparr>socket = sock, room_of = realRoom,
                        recv = make_chan messageBufferSize,
                        name = ''user'' @ decimal n\<rparr>, s1)))"

text \<open>The handler \<^verbatim>\<open>main\<close> registers for \<^verbatim>\<open>/room\<close>.\<close>

definition room_handler ::
  "(http_request \<Rightarrow> 's option) \<Rightarrow> nat \<Rightarrow> http_request \<Rightarrow> server \<Rightarrow> 's reply \<times> server" where
  "room_handler upgrade n req s =
     (let roomName = query_get ''room'' (query req) in
      if roomName = [] then (HttpError StatusBadRequest ''Missing room parameter'', s)
      else
        (let (realRoom, s1) = getRoom roomName s in
         ServeHTTP upgrade n req s1))"

section \<open>The run loop, send by send\<close>

text \<open>
  The loop and the writers as interleaved steps. The loop stands at its \<^verbatim>\<open>select\<close>, or
  inside the \<^verbatim>\<open>range\<close> of a forward before the send to the first client of the list. It
  takes a request only at the \<^verbatim>\<open>select\<close>; a writer takes one entry from its channel.
\<close>

datatype pc = AtSelect | Sending bytes "cid list"

datatype action = Take request | Send | Drain cid

fun loop_pc :: "bytes \<Rightarrow> cid list \<Rightarrow> pc" where
  "loop_pc msg [] = AtSelect"
| "loop_pc msg (c # cs) = Sending msg (c # cs)"

fun step :: "action \<Rightarrow> pc \<times> room \<Rightarrow> (pc \<times> room) attempt" where
  "step (Take (Forward msg ks)) (AtSelect, r) = Ok (loop_pc msg ks, r)"
| "step (Take q) (AtSelect, r) =
     (case run_step q r of Done r' \<Rightarrow> Ok (AtSelect, r') | _ \<Rightarrow> Panics)"
| "step (Take q) (Sending msg cs, r) = Blocks"
| "step Send (Sending msg (c # cs), r) =
     (case chan_send msg (receive r c) of
        Ok ch \<Rightarrow> Ok (loop_pc msg cs, r\<lparr>receive := (receive r)(c := ch)\<rparr>)
      | Blocks \<Rightarrow> Blocks
      | Panics \<Rightarrow> Panics)"
| "step Send (p, r) = Blocks"
| "step (Drain c) (p, r) =
     (case chan_recv (receive r c) of
        Ok (m, ch) \<Rightarrow> Ok (p, r\<lparr>receive := (receive r)(c := ch)\<rparr>)
      | Blocks \<Rightarrow> Blocks
      | Panics \<Rightarrow> Panics)"

fun steps :: "action list \<Rightarrow> pc \<times> room \<Rightarrow> (pc \<times> room) attempt" where
  "steps [] cfg = Ok cfg"
| "steps (a # as) cfg =
     (case step a cfg of Ok cfg' \<Rightarrow> steps as cfg' | Blocks \<Rightarrow> Blocks | Panics \<Rightarrow> Panics)"

text \<open>The sends a schedule completes: the client and the payload of each, in order.\<close>

fun sends :: "action list \<Rightarrow> pc \<times> room \<Rightarrow> (cid \<times> bytes) list" where
  "sends [] cfg = []"
| "sends (a # as) cfg =
     (case step a cfg of
        Ok cfg' \<Rightarrow>
          (case (a, fst cfg) of
             (Send, Sending msg (c # cs)) \<Rightarrow> (c, msg) # sends as cfg'
           | _ \<Rightarrow> sends as cfg')
      | _ \<Rightarrow> [])"

fun is_take :: "action \<Rightarrow> bool" where
  "is_take (Take q) = True"
| "is_take a = False"





text \<open>The sends still to do in the pass the loop stands in.\<close>

fun pending :: "pc \<Rightarrow> (cid \<times> bytes) list" where
  "pending AtSelect = []"
| "pending (Sending msg cs) = map (\<lambda>c. (c, msg)) cs"

text \<open>The payloads of a log that belong to one client, in order.\<close>

definition for_client :: "cid \<Rightarrow> (cid \<times> bytes) list \<Rightarrow> bytes list" where
  "for_client c es = map snd (filter (\<lambda>e. fst e = c) es)"

section \<open>Sample states\<close>

text \<open>A room with the clients 1 and 2 joined and every channel as \<^verbatim>\<open>ServeHTTP\<close> makes it.\<close>

definition room_ab :: room where
  "room_ab = \<lparr>clients = [1 \<mapsto> True, 2 \<mapsto> True], receive = (\<lambda>c. make_chan messageBufferSize)\<rparr>"

text \<open>Client 1 of the same room with all the slots of its channel taken.\<close>

definition room_full :: room where
  "room_full = \<lparr>clients = [1 \<mapsto> True, 2 \<mapsto> True],
                 receive = (\<lambda>c. make_chan messageBufferSize)
                   (1 := \<lparr>buf = replicate messageBufferSize ''old'', cap = messageBufferSize,
                          closed = False\<rparr>)\<rparr>"


text \<open>Requests with no \<^verbatim>\<open>room\<close> parameter, with an empty one, and for the room lobby.\<close>

definition req_none :: http_request where
  "req_none = \<lparr>query = Map.empty\<rparr>"

definition req_empty :: http_request where
  "req_empty = \<lparr>query = [''room'' \<mapsto> [[]]]\<rparr>"

definition req_lobby :: http_request where
  "req_lobby = \<lparr>query = [''room'' \<mapsto> [''lobby'']]\<rparr>"

text \<open>
  An encoder to run \<^verbatim>\<open>read\<close> with: it fails on an empty message, as \<^verbatim>\<open>json.Marshal\<close> may
  fail on a value it cannot encode.
\<close>

definition toy_marshal :: "(string \<rightharpoonup> string) \<Rightarrow> unit + bytes" where
  "toy_marshal m =
     (case (m ''name'', m ''message'') of
        (Some n, Some t) \<Rightarrow> if t = [] then Inl () else Inr (n @ '': '' @ t)
      | _ \<Rightarrow> Inl ())"

section \<open>Facts about the run loop\<close>

lemma forward_loop_frame:
  "forward_loop msg ks r = Done r' \<or> forward_loop msg ks r = Blocked b rest r' \<Longrightarrow>
     clients r' = clients r \<and> (\<forall>x. x \<notin> set ks \<longrightarrow> receive r' x = receive r x)"
proof (induction ks arbitrary: r)
  case Nil
  then show ?case by auto
next
  case (Cons c cs)
  show ?case
  proof (cases "chan_send msg (receive r c)")
    case (Ok ch)
    let ?r1 = "r\<lparr>receive := (receive r)(c := ch)\<rparr>"
    from Cons.prems Ok have "forward_loop msg cs ?r1 = Done r' \<or> forward_loop msg cs ?r1 = Blocked b rest r'"
      by simp
    from Cons.IH[OF this] show ?thesis by auto
  next
    case Blocks
    with Cons.prems show ?thesis by auto
  next
    case Panics
    with Cons.prems show ?thesis by auto
  qed
qed


lemma forward_loop_Done:
  "distinct ks \<Longrightarrow> \<forall>c \<in> set ks. \<not> closed (receive r c) \<and> length (buf (receive r c)) < cap (receive r c) \<Longrightarrow>
   \<exists>r'. forward_loop msg ks r = Done r' \<and> clients r' = clients r \<and>
     (\<forall>c. receive r' c = (if c \<in> set ks then (receive r c)\<lparr>buf := buf (receive r c) @ [msg]\<rparr> else receive r c))"
proof (induction ks arbitrary: r)
  case Nil
  then show ?case by simp
next
  case (Cons c cs)
  let ?ch = "(receive r c)\<lparr>buf := buf (receive r c) @ [msg]\<rparr>"
  let ?r1 = "r\<lparr>receive := (receive r)(c := ?ch)\<rparr>"
  from Cons.prems have snd: "chan_send msg (receive r c) = Ok ?ch"
    by (simp add: chan_send_def)
  from Cons.prems have d: "distinct cs" and nin: "c \<notin> set cs" by auto
  from Cons.prems nin have sp: "\<forall>k \<in> set cs. \<not> closed (receive ?r1 k) \<and> length (buf (receive ?r1 k)) < cap (receive ?r1 k)"
    by auto
  from Cons.IH[OF d sp, of ] obtain r' where
    r': "forward_loop msg cs ?r1 = Done r'" "clients r' = clients ?r1"
      "\<forall>k. receive r' k = (if k \<in> set cs then (receive ?r1 k)\<lparr>buf := buf (receive ?r1 k) @ [msg]\<rparr> else receive ?r1 k)"
    by blast
  from r' snd nin show ?case by auto
qed

lemma write_closed: "closed ch \<Longrightarrow> fst (client_write wm ch s) = Returned"
proof (induction wm ch s rule: client_write.induct)
  case (1 wm ch s)
  show ?case
  proof (cases "buf ch")
    case Nil
    with 1 show ?thesis by (simp add: chan_recv_def)
  next
    case (Cons m ms)
    then have rc: "chan_recv ch = Ok (Some m, ch\<lparr>buf := ms\<rparr>)" by (simp add: chan_recv_def)
    show ?thesis
    proof (cases "wm m s")
      case None
      with rc show ?thesis by simp
    next
      case (Some s')
      from "1.IH"[OF rc _ _ Some] "1.prems" have "fst (client_write wm (ch\<lparr>buf := ms\<rparr>) s') = Returned" by simp
      with rc Some show ?thesis by simp
    qed
  qed
qed

lemma run_append:
  "run (qs @ qs') r = (case run qs r of Done r' \<Rightarrow> run qs' r' | out \<Rightarrow> out)"
  by (induction qs arbitrary: r) (auto split: outcome.splits)

lemma leave_step:
  "run_step (Leave c) r =
     (if closed (receive r c) then Panicked
      else Done (r\<lparr>clients := (clients r)(c := None),
                   receive := (receive r)(c := (receive r c)\<lparr>closed := True\<rparr>)\<rparr>))"
  by (simp add: chan_close_def)

lemma forward_loop_closed:
  "closed (receive r x) \<Longrightarrow>
   forward_loop msg ks r = Done r' \<or> forward_loop msg ks r = Blocked b rest r' \<Longrightarrow>
   receive r' x = receive r x"
proof (induction ks arbitrary: r)
  case Nil
  then show ?case by auto
next
  case (Cons c cs)
  show ?case
  proof (cases "chan_send msg (receive r c)")
    case (Ok ch)
    with Cons.prems(1) have ne: "c \<noteq> x" by (auto simp: chan_send_def)
    let ?r1 = "r\<lparr>receive := (receive r)(c := ch)\<rparr>"
    from ne Cons.prems(1) have cl: "closed (receive ?r1 x)" by simp
    from Cons.prems(2) Ok have "forward_loop msg cs ?r1 = Done r' \<or>
        forward_loop msg cs ?r1 = Blocked b rest r'" by simp
    from Cons.IH[OF cl this] ne show ?thesis by simp
  next
    case Blocks
    with Cons.prems show ?thesis by auto
  next
    case Panics
    with Cons.prems show ?thesis by auto
  qed
qed

lemma run_step_closed:
  "closed (receive r x) \<Longrightarrow>
   run_step q r = Done r' \<or> run_step q r = Blocked b rest r' \<Longrightarrow>
   receive r' x = receive r x"
proof (cases q)
  case (Join c)
  assume "run_step q r = Done r' \<or> run_step q r = Blocked b rest r'"
  with Join show ?thesis by auto
next
  case (Leave c)
  assume "closed (receive r x)" "run_step q r = Done r' \<or> run_step q r = Blocked b rest r'"
  with Leave show ?thesis
    by (cases "c = x") (auto simp: leave_step simp del: run_step.simps split: if_splits)
next
  case (Forward msg ks)
  assume "closed (receive r x)" "run_step q r = Done r' \<or> run_step q r = Blocked b rest r'"
  with Forward show ?thesis using forward_loop_closed[of r x msg ks r' b rest] by simp
qed

lemma run_closed:
  "closed (receive r x) \<Longrightarrow> run qs r = Done r' \<or> run qs r = Blocked b rest r' \<Longrightarrow>
   receive r' x = receive r x"
proof (induction qs arbitrary: r)
  case Nil
  then show ?case by auto
next
  case (Cons q qs)
  show ?case
  proof (cases "run_step q r")
    case (Done r1)
    then have k: "receive r1 x = receive r x" using run_step_closed[OF Cons.prems(1)] by blast
    with Cons.prems(1) have cl: "closed (receive r1 x)" by simp
    from Cons.prems(2) Done have "run qs r1 = Done r' \<or> run qs r1 = Blocked b rest r'" by simp
    from Cons.IH[OF cl this] k show ?thesis by simp
  next
    case (Blocked c cs r1)
    with Cons.prems(2) have "run_step q r = Blocked b rest r'" by simp
    then show ?thesis using run_step_closed[OF Cons.prems(1)] by blast
  next
    case Panicked
    with Cons.prems(2) show ?thesis by simp
  qed
qed

lemma run_step_members:
  "run_step q r = Done r' \<or> run_step q r = Blocked b rest r' \<Longrightarrow> q \<noteq> Join x \<Longrightarrow>
   x \<notin> dom (clients r) \<Longrightarrow> x \<notin> dom (clients r')"
proof (cases q)
  case (Join c)
  assume "run_step q r = Done r' \<or> run_step q r = Blocked b rest r'" "q \<noteq> Join x"
    "x \<notin> dom (clients r)"
  with Join show ?thesis by auto
next
  case (Leave c)
  assume "run_step q r = Done r' \<or> run_step q r = Blocked b rest r'" "x \<notin> dom (clients r)"
  with Leave show ?thesis
    by (auto simp: leave_step simp del: run_step.simps split: if_splits)
next
  case (Forward msg ks)
  assume "run_step q r = Done r' \<or> run_step q r = Blocked b rest r'" "x \<notin> dom (clients r)"
  with Forward show ?thesis using forward_loop_frame[of msg ks r r' b rest] by simp
qed

lemma run_members:
  "run qs r = Done r' \<or> run qs r = Blocked b rest r' \<Longrightarrow> Join x \<notin> set qs \<Longrightarrow>
   x \<notin> dom (clients r) \<Longrightarrow> x \<notin> dom (clients r')"
proof (induction qs arbitrary: r)
  case Nil
  then show ?case by auto
next
  case (Cons q qs)
  from Cons.prems(2) have nq: "q \<noteq> Join x" and nj: "Join x \<notin> set qs" by auto
  show ?case
  proof (cases "run_step q r")
    case (Done r1)
    then have k: "x \<notin> dom (clients r1)" using run_step_members[OF _ nq Cons.prems(3)] by blast
    from Cons.prems(1) Done have "run qs r1 = Done r' \<or> run qs r1 = Blocked b rest r'" by simp
    from Cons.IH[OF this nj k] show ?thesis .
  next
    case (Blocked c cs r1)
    with Cons.prems(1) have "run_step q r = Blocked b rest r'" by simp
    then show ?thesis using run_step_members[OF _ nq Cons.prems(3)] by blast
  next
    case Panicked
    with Cons.prems(1) show ?thesis by simp
  qed
qed

lemma run_forwards:
  "\<forall>b \<in> set bs. range_order (clients r) (snd b) \<Longrightarrow>
   \<forall>c \<in> dom (clients r). \<not> closed (receive r c) \<and> length (buf (receive r c)) + length bs \<le> cap (receive r c) \<Longrightarrow>
   \<exists>r'. run (map (\<lambda>b. Forward (fst b) (snd b)) bs) r = Done r' \<and> clients r' = clients r \<and>
     (\<forall>c. receive r' c =
        (if c \<in> dom (clients r) then (receive r c)\<lparr>buf := buf (receive r c) @ map fst bs\<rparr>
         else receive r c))"
proof (induction bs arbitrary: r)
  case Nil
  then show ?case by simp
next
  case (Cons b bs)
  obtain msg ks where b: "b = (msg, ks)" by (cases b)
  from Cons.prems(1) b have ro: "distinct ks" "set ks = dom (clients r)"
    by (auto simp: range_order_def)
  have sp: "\<forall>c \<in> set ks. \<not> closed (receive r c) \<and> length (buf (receive r c)) < cap (receive r c)"
  proof
    fix c assume "c \<in> set ks"
    with ro have "c \<in> dom (clients r)" by simp
    with Cons.prems(2) have "\<not> closed (receive r c) \<and>
        length (buf (receive r c)) + length (b # bs) \<le> cap (receive r c)" by blast
    then show "\<not> closed (receive r c) \<and> length (buf (receive r c)) < cap (receive r c)" by simp
  qed
  from forward_loop_Done[OF ro(1) sp, of msg] obtain r1 where
    r1: "forward_loop msg ks r = Done r1" "clients r1 = clients r"
      "\<forall>c. receive r1 c = (if c \<in> set ks then (receive r c)\<lparr>buf := buf (receive r c) @ [msg]\<rparr> else receive r c)"
    by blast
  from Cons.prems(1) r1(2) have ro1: "\<forall>b \<in> set bs. range_order (clients r1) (snd b)" by simp
  have sp1: "\<forall>c \<in> dom (clients r1). \<not> closed (receive r1 c) \<and>
      length (buf (receive r1 c)) + length bs \<le> cap (receive r1 c)"
  proof
    fix c assume "c \<in> dom (clients r1)"
    with r1(2) have c: "c \<in> dom (clients r)" by simp
    with Cons.prems(2) have "\<not> closed (receive r c) \<and>
        length (buf (receive r c)) + length (b # bs) \<le> cap (receive r c)" by blast
    moreover from c ro r1(3) have "receive r1 c = (receive r c)\<lparr>buf := buf (receive r c) @ [msg]\<rparr>"
      by simp
    ultimately show "\<not> closed (receive r1 c) \<and>
      length (buf (receive r1 c)) + length bs \<le> cap (receive r1 c)" by simp
  qed
  from Cons.IH[OF ro1 sp1] obtain r' where
    r': "run (map (\<lambda>b. Forward (fst b) (snd b)) bs) r1 = Done r'" "clients r' = clients r1"
      "\<forall>c. receive r' c = (if c \<in> dom (clients r1) then (receive r1 c)\<lparr>buf := buf (receive r1 c) @ map fst bs\<rparr> else receive r1 c)"
    by blast
  have 1: "run (map (\<lambda>b. Forward (fst b) (snd b)) (b # bs)) r = Done r'"
    using r1(1) r'(1) b by simp
  have 2: "clients r' = clients r" using r1(2) r'(2) by simp
  have 3: "receive r' c =
        (if c \<in> dom (clients r) then (receive r c)\<lparr>buf := buf (receive r c) @ map fst (b # bs)\<rparr>
         else receive r c)" for c
  proof (cases "c \<in> dom (clients r)")
    case True
    with ro r1(3) have "receive r1 c = (receive r c)\<lparr>buf := buf (receive r c) @ [msg]\<rparr>" by simp
    moreover from True r1(2) r'(3) have "receive r' c = (receive r1 c)\<lparr>buf := buf (receive r1 c) @ map fst bs\<rparr>"
      by simp
    ultimately show ?thesis using True b by simp
  next
    case False
    with ro r1(3) have "receive r1 c = receive r c" by simp
    moreover from False r1(2) r'(3) have "receive r' c = receive r1 c" by simp
    ultimately show ?thesis using False by simp
  qed
  from 1 2 3 show ?case by blast
qed

section \<open>Membership\<close>

text \<open>
  C9. Join is idempotent on the membership: when \<open>c\<close> is a key of \<^verbatim>\<open>r.clients\<close> already,
  processing \<open>Join c\<close> returns to the select with the same set of keys and the same
  channels; the stored value is \<open>True\<close> on every path of the code, and then the whole state
  is unchanged. Processing the join twice is processing it once.
\<close>

theorem join_idempotent:
  assumes "c \<in> dom (clients r)"
  shows "(\<exists>r'. run_step (Join c) r = Done r' \<and> dom (clients r') = dom (clients r) \<and>
              receive r' = receive r \<and> (clients r c = Some True \<longrightarrow> r' = r))
         \<and> run [Join c, Join c] r = run [Join c] r"
  using assms by (auto simp: insert_absorb map_upd_triv)

theorem join_idempotent_witness:
  "1 \<in> dom (clients room_ab) \<and> run_step (Join 1) room_ab = Done room_ab \<and>
   run [Join 1, Join 1] room_ab = Done room_ab"
  using join_idempotent [of 1 room_ab] by (simp add: room_ab_def)

text \<open>
  C10. Leave closes the client's channel whether or not the client is a key of
  \<^verbatim>\<open>r.clients\<close>: the only test is the one \<^verbatim>\<open>close\<close> makes itself, which panics on a
  channel closed before. So two leaves of one client always end in a panic, also after a
  join.
\<close>

theorem leave_closes_unconditionally:
  "run_step (Leave c) r =
     (if closed (receive r c) then Panicked
      else Done (r\<lparr>clients := (clients r)(c := None),
                   receive := (receive r)(c := (receive r c)\<lparr>closed := True\<rparr>)\<rparr>))
   \<and> run [Leave c, Leave c] r = Panicked
   \<and> run [Join c, Leave c, Leave c] r = Panicked"
  by (simp add: chan_close_def)

text \<open>
  C5. Processing \<open>Leave x\<close> for a client whose channel is open removes \<open>x\<close> from the map
  and closes its channel in the same step. On the closed channel the writer returns
  whatever the socket does, no pass of a forward over the new map visits \<open>x\<close>, and no
  request processed later changes the closed channel.
\<close>

theorem leave_removes_and_closes:
  assumes "\<not> closed (receive r x)"
  shows "\<exists>r'. run_step (Leave x) r = Done r' \<and>
           clients r' = (clients r)(x := None) \<and>
           receive r' = (receive r)(x := (receive r x)\<lparr>closed := True\<rparr>) \<and>
           fst (client_write writeMessage (receive r' x) sock) = Returned \<and>
           (\<forall>ks. range_order (clients r') ks \<longrightarrow> x \<notin> set ks) \<and>
           (\<forall>qs r'' b rest. run qs r' = Done r'' \<or> run qs r' = Blocked b rest r'' \<longrightarrow>
              receive r'' x = receive r' x)"
proof -
  define r' where "r' = r\<lparr>clients := (clients r)(x := None),
                receive := (receive r)(x := (receive r x)\<lparr>closed := True\<rparr>)\<rparr>"
  from assms have 1: "run_step (Leave x) r = Done r'"
    unfolding r'_def leave_step by simp
  have cl: "clients r' = (clients r)(x := None)" by (simp add: r'_def)
  have rc: "receive r' = (receive r)(x := (receive r x)\<lparr>closed := True\<rparr>)" by (simp add: r'_def)
  from rc have c: "closed (receive r' x)" by simp
  then have 2: "fst (client_write writeMessage (receive r' x) sock) = Returned"
    by (rule write_closed)
  have 3: "x \<notin> set ks" if "range_order (clients r') ks" for ks
    using that cl by (auto simp: range_order_def)
  have 4: "receive r'' x = receive r' x"
    if "run qs r' = Done r'' \<or> run qs r' = Blocked b rest r''" for qs r'' b rest
    using run_closed[OF c that] .
  show ?thesis
  proof (intro exI[of _ r'] conjI allI impI)
    show "run_step (Leave x) r = Done r'" by (rule 1)
    show "clients r' = (clients r)(x := None)" by (rule cl)
    show "receive r' = (receive r)(x := (receive r x)\<lparr>closed := True\<rparr>)" by (rule rc)
    show "fst (client_write writeMessage (receive r' x) sock) = Returned" by (rule 2)
  next
    fix ks assume "range_order (clients r') ks"
    then show "x \<notin> set ks" by (rule 3)
  next
    fix qs r'' b rest
    assume "run qs r' = Done r'' \<or> run qs r' = Blocked b rest r''"
    then show "receive r'' x = receive r' x" by (rule 4)
  qed
qed

theorem leave_removes_and_closes_witness:
  "\<exists>r'. run_step (Leave 1) room_ab = Done r' \<and> dom (clients r') = {2} \<and>
     closed (receive r' 1) \<and>
     fst (client_write (\<lambda>m s. Some s) (receive r' 1) ()) = Returned"
proof -
  have h: "\<not> closed (receive room_ab 1)" by (simp add: room_ab_def make_chan_def)
  from leave_removes_and_closes [OF h, of "\<lambda>m s. Some s" "()"] obtain r' where
    r': "run_step (Leave 1) room_ab = Done r'" "clients r' = (clients room_ab)(1 := None)"
      "receive r' = (receive room_ab)(1 := (receive room_ab 1)\<lparr>closed := True\<rparr>)"
      "fst (client_write (\<lambda>m s. Some s) (receive r' 1) ()) = Returned"
    by blast
  from r'(2) have "dom (clients r') = {2}" by (auto simp: room_ab_def)
  moreover from r'(3) have "closed (receive r' 1)" by simp
  ultimately show ?thesis using r'(1,4) by blast
qed

section \<open>Broadcast\<close>

text \<open>
  C2. Once \<open>Leave x\<close> has been processed, \<open>x\<close> is out of the map and its channel is
  closed; whatever requests are processed afterwards, the channel of \<open>x\<close> is as the leave
  left it wherever the loop stands (back at its select or suspended in a send), no pass of
  a forward visits \<open>x\<close>, and \<open>x\<close> stays out of the map unless it is joined again. A
  forward on an empty membership returns to the select with the state as it was.
\<close>

theorem no_delivery_after_leave:
  assumes "run_step (Leave x) r = Done r1"
    and "run qs r1 = Done r2 \<or> run qs r1 = Blocked b rest r2"
  shows "x \<notin> dom (clients r1) \<and> receive r2 x = receive r1 x \<and>
         (Join x \<notin> set qs \<longrightarrow> x \<notin> dom (clients r2)) \<and>
         (\<forall>ks. range_order (clients r1) ks \<longrightarrow> x \<notin> set ks) \<and>
         (clients r1 = Map.empty \<longrightarrow> (\<forall>msg ks. range_order (clients r1) ks \<longrightarrow>
            run_step (Forward msg ks) r1 = Done r1))"
proof -
  from assms(1) have a: "x \<notin> dom (clients r1)" "closed (receive r1 x)"
    unfolding leave_step by (auto split: if_splits)
  have 2: "receive r2 x = receive r1 x" using run_closed[OF a(2) assms(2)] .
  have 3: "x \<notin> dom (clients r2)" if "Join x \<notin> set qs"
    using run_members[OF assms(2) that a(1)] .
  have 4: "x \<notin> set ks" if "range_order (clients r1) ks" for ks
    using that a(1) by (simp add: range_order_def)
  have 5: "run_step (Forward msg ks) r1 = Done r1"
    if "clients r1 = Map.empty" "range_order (clients r1) ks" for msg ks
    using that by (simp add: range_order_def)
  from a(1) 2 3 4 5 show ?thesis by blast
qed

theorem no_delivery_after_leave_witness:
  "\<exists>r1 r2. run_step (Leave 1) room_ab = Done r1 \<and> run [Forward ''hi'' [2]] r1 = Done r2 \<and>
     1 \<notin> dom (clients r2) \<and> receive r2 1 = receive r1 1 \<and> buf (receive r2 1) = [] \<and>
     buf (receive r2 2) = [''hi'']"
proof -
  define r1 where "r1 = room_ab\<lparr>clients := (clients room_ab)(1 := None),
      receive := (receive room_ab)(1 := (receive room_ab 1)\<lparr>closed := True\<rparr>)\<rparr>"
  define r2 where "r2 = r1\<lparr>receive := (receive r1)(2 := (receive r1 2)\<lparr>buf := [''hi'']\<rparr>)\<rparr>"
  have a: "run_step (Leave 1) room_ab = Done r1"
    unfolding leave_step r1_def by (simp add: room_ab_def make_chan_def)
  have b: "Join 1 \<notin> set [Forward ''hi'' [2]]" by simp
  have d: "run [Forward ''hi'' [2]] r1 = Done r2"
    by (simp add: r2_def r1_def room_ab_def chan_send_def make_chan_def messageBufferSize_def)
  then have d': "run [Forward ''hi'' [2]] r1 = Done r2 \<or> run [Forward ''hi'' [2]] r1 = Blocked 0 [] r2"
    by simp
  from no_delivery_after_leave [OF a d'] b have "1 \<notin> dom (clients r2)" "receive r2 1 = receive r1 1"
    by simp_all
  moreover have "buf (receive r2 1) = []" "buf (receive r2 2) = [''hi'']"
    by (simp_all add: r2_def r1_def room_ab_def make_chan_def)
  ultimately show ?thesis using a d by blast
qed

subsection \<open>Sends and drains along a schedule\<close>

lemma for_client_simps [simp]:
  "for_client c [] = []"
  "for_client c ((d, m) # es) = (if d = c then m # for_client c es else for_client c es)"
  "for_client c (es @ fs) = for_client c es @ for_client c fs"
  by (simp_all add: for_client_def)

lemma pending_loop_pc [simp]: "pending (loop_pc msg ks) = map (\<lambda>c. (c, msg)) ks"
  by (cases ks) simp_all








section \<open>Backpressure\<close>

lemma steps_follow_forward_loop:
  "forward_loop msg ks r = Done r' \<Longrightarrow>
   steps (replicate (length ks) Send) (loop_pc msg ks, r) = Ok (AtSelect, r')"
proof (induction ks arbitrary: r)
  case Nil
  then show ?case by simp
next
  case (Cons c cs)
  show ?case
  proof (cases "chan_send msg (receive r c)")
    case (Ok ch)
    with Cons.prems have "forward_loop msg cs (r\<lparr>receive := (receive r)(c := ch)\<rparr>) = Done r'"
      by simp
    from Cons.IH[OF this] Ok show ?thesis by simp
  next
    case Blocks
    with Cons.prems show ?thesis by simp
  next
    case Panics
    with Cons.prems show ?thesis by simp
  qed
qed

lemma sends_in_order:
  "steps as (loop_pc msg ks, r) = Ok (p', r') \<Longrightarrow> \<forall>a \<in> set as. \<not> is_take a \<Longrightarrow>
   \<exists>rem. p' = loop_pc msg rem \<and>
     map (\<lambda>c. (c, msg)) ks = sends as (loop_pc msg ks, r) @ map (\<lambda>c. (c, msg)) rem"
proof (induction as arbitrary: ks r)
  case Nil
  then show ?case by auto
next
  case (Cons a as)
  from Cons.prems(2) have nt: "\<forall>a \<in> set as. \<not> is_take a" by simp
  show ?case
  proof (cases a)
    case (Take q)
    with Cons.prems(2) show ?thesis by simp
  next
    case Send
    show ?thesis
    proof (cases ks)
      case Nil
      with Send Cons.prems(1) show ?thesis by simp
    next
      case (Cons c cs)
      show ?thesis
      proof (cases "chan_send msg (receive r c)")
        case (Ok ch)
        let ?r1 = "r\<lparr>receive := (receive r)(c := ch)\<rparr>"
        from Ok Send Cons have st: "step a (loop_pc msg ks, r) = Ok (loop_pc msg cs, ?r1)" by simp
        with Cons.prems(1) have "steps as (loop_pc msg cs, ?r1) = Ok (p', r')" by simp
        from Cons.IH[OF this nt] obtain rem where
          rem: "p' = loop_pc msg rem"
            "map (\<lambda>c. (c, msg)) cs = sends as (loop_pc msg cs, ?r1) @ map (\<lambda>c. (c, msg)) rem"
          by blast
        have "sends (a # as) (loop_pc msg ks, r) = (c, msg) # sends as (loop_pc msg cs, ?r1)"
          using st Send Cons by simp
        with rem Cons show ?thesis by auto
      next
        case Blocks
        with Send Cons Cons.prems(1) show ?thesis by simp
      next
        case Panics
        with Send Cons Cons.prems(1) show ?thesis by simp
      qed
    qed
  next
    case (Drain y)
    show ?thesis
    proof (cases "chan_recv (receive r y)")
      case (Ok res)
      obtain m ch where res: "res = (m, ch)" by (cases res)
      let ?r1 = "r\<lparr>receive := (receive r)(y := ch)\<rparr>"
      from Ok res Drain have st: "step a (loop_pc msg ks, r) = Ok (loop_pc msg ks, ?r1)" by simp
      with Cons.prems(1) have "steps as (loop_pc msg ks, ?r1) = Ok (p', r')" by simp
      from Cons.IH[OF this nt] obtain rem where
        rem: "p' = loop_pc msg rem"
          "map (\<lambda>c. (c, msg)) ks = sends as (loop_pc msg ks, ?r1) @ map (\<lambda>c. (c, msg)) rem"
        by blast
      have "sends (a # as) (loop_pc msg ks, r) = sends as (loop_pc msg ks, ?r1)"
        using st Drain by simp
      with rem show ?thesis by auto
    next
      case Blocks
      with Drain Cons.prems(1) show ?thesis by simp
    next
      case Panics
      with Drain Cons.prems(1) show ?thesis by simp
    qed
  qed
qed

text \<open>
  C4. The pass of a forward has reached \<open>x\<close>, whose channel is open and has all its
  256 slots taken. The send is suspended (as the loop run in one piece reports) and the
  loop takes no request. Every step that can be taken, other than the writer of \<open>x\<close>
  taking an entry, leaves the loop suspended at the same place with the channel of \<open>x\<close>
  as full as before. Once the writer of \<open>x\<close> has taken one entry the send completes and
  the pass goes on with the rest. Whatever the writers do meanwhile, the sends the loop
  completes are those of the pass in its order, none left out; and when the rest have
  room, draining one entry of \<open>x\<close> lets the pass reach the select with the payload
  appended to each of them.
\<close>

theorem full_queue_blocks_the_loop:
  assumes "\<not> closed (receive r x)" and "cap (receive r x) = messageBufferSize"
    and "length (buf (receive r x)) = messageBufferSize"
  shows "forward_loop msg (x # rest) r = Blocked x rest r \<and>
    step Send (Sending msg (x # rest), r) = Blocks \<and>
    (\<forall>q. step (Take q) (Sending msg (x # rest), r) = Blocks) \<and>
    (\<forall>a cfg'. a \<noteq> Drain x \<longrightarrow> step a (Sending msg (x # rest), r) = Ok cfg' \<longrightarrow>
        fst cfg' = Sending msg (x # rest) \<and> receive (snd cfg') x = receive r x \<and>
        step Send cfg' = Blocks) \<and>
    (\<exists>r1 r2. step (Drain x) (Sending msg (x # rest), r) = Ok (Sending msg (x # rest), r1) \<and>
        step Send (Sending msg (x # rest), r1) = Ok (loop_pc msg rest, r2) \<and>
        buf (receive r2 x) = tl (buf (receive r x)) @ [msg]) \<and>
    (\<forall>as p' r'. (\<forall>a \<in> set as. \<not> is_take a) \<longrightarrow>
        steps as (Sending msg (x # rest), r) = Ok (p', r') \<longrightarrow>
        (\<exists>rem. p' = loop_pc msg rem \<and>
           map (\<lambda>c. (c, msg)) (x # rest) =
             sends as (Sending msg (x # rest), r) @ map (\<lambda>c. (c, msg)) rem)) \<and>
    (distinct (x # rest) \<and>
     (\<forall>c \<in> set rest. \<not> closed (receive r c) \<and> length (buf (receive r c)) < cap (receive r c)) \<longrightarrow>
        (\<exists>r'. steps (Drain x # replicate (Suc (length rest)) Send) (Sending msg (x # rest), r) =
                 Ok (AtSelect, r') \<and>
           (\<forall>c \<in> set rest. receive r' c = (receive r c)\<lparr>buf := buf (receive r c) @ [msg]\<rparr>)))"
proof -
  from assms have blk: "chan_send msg (receive r x) = Blocks" by (simp add: chan_send_def)
  have 1: "forward_loop msg (x # rest) r = Blocked x rest r" using blk by simp
  have 2: "step Send (Sending msg (x # rest), r) = Blocks" using blk by simp
  have 3: "\<forall>q. step (Take q) (Sending msg (x # rest), r) = Blocks" by simp
  have 4: "fst cfg' = Sending msg (x # rest) \<and> receive (snd cfg') x = receive r x \<and>
        step Send cfg' = Blocks"
    if na: "a \<noteq> Drain x" and st: "step a (Sending msg (x # rest), r) = Ok cfg'" for a cfg'
  proof (cases a)
    case (Take q)
    with st show ?thesis by simp
  next
    case Send
    with st 2 show ?thesis by simp
  next
    case (Drain y)
    with na have yx: "y \<noteq> x" by simp
    show ?thesis
    proof (cases "chan_recv (receive r y)")
      case (Ok res)
      obtain m ch where "res = (m, ch)" by (cases res)
      with Ok st Drain
      have c: "cfg' = (Sending msg (x # rest), r\<lparr>receive := (receive r)(y := ch)\<rparr>)"
        by simp
      with yx blk show ?thesis by simp
    next
      case Blocks
      with st Drain show ?thesis by simp
    next
      case Panics
      with st Drain show ?thesis by simp
    qed
  qed
  from assms(3) obtain m ms where ne: "buf (receive r x) = m # ms"
    by (cases "buf (receive r x)") (simp_all add: messageBufferSize_def)
  define r1 where "r1 = r\<lparr>receive := (receive r)(x := (receive r x)\<lparr>buf := ms\<rparr>)\<rparr>"
  define r2 where "r2 = r1\<lparr>receive := (receive r1)(x := (receive r1 x)\<lparr>buf := ms @ [msg]\<rparr>)\<rparr>"
  have d: "step (Drain x) (Sending msg (x # rest), r) = Ok (Sending msg (x # rest), r1)"
    using ne by (simp add: chan_recv_def r1_def)
  have snd1: "chan_send msg (receive r1 x) = Ok ((receive r1 x)\<lparr>buf := ms @ [msg]\<rparr>)"
    using assms ne by (simp add: chan_send_def r1_def)
  then have s: "step Send (Sending msg (x # rest), r1) = Ok (loop_pc msg rest, r2)"
    by (simp add: r2_def)
  have b2: "buf (receive r2 x) = tl (buf (receive r x)) @ [msg]"
    using ne by (simp add: r2_def)
  from d s b2 have 5: "\<exists>r1 r2. step (Drain x) (Sending msg (x # rest), r) = Ok (Sending msg (x # rest), r1) \<and>
        step Send (Sending msg (x # rest), r1) = Ok (loop_pc msg rest, r2) \<and>
        buf (receive r2 x) = tl (buf (receive r x)) @ [msg]"
    by blast
  have 6: "\<exists>rem. p' = loop_pc msg rem \<and>
           map (\<lambda>c. (c, msg)) (x # rest) =
             sends as (Sending msg (x # rest), r) @ map (\<lambda>c. (c, msg)) rem"
    if "\<forall>a \<in> set as. \<not> is_take a" "steps as (Sending msg (x # rest), r) = Ok (p', r')"
    for as p' r'
    using sends_in_order[of as msg "x # rest" r p' r'] that by simp
  have 7: "\<exists>r'. steps (Drain x # replicate (Suc (length rest)) Send) (Sending msg (x # rest), r) =
                 Ok (AtSelect, r') \<and>
           (\<forall>c \<in> set rest. receive r' c = (receive r c)\<lparr>buf := buf (receive r c) @ [msg]\<rparr>)"
    if dist: "distinct (x # rest)"
      and sp: "\<forall>c \<in> set rest. \<not> closed (receive r c) \<and> length (buf (receive r c)) < cap (receive r c)"
  proof -
    from dist have xr: "x \<notin> set rest" by simp
    have sp1: "\<forall>c \<in> set (x # rest). \<not> closed (receive r1 c) \<and>
        length (buf (receive r1 c)) < cap (receive r1 c)"
    proof
      fix c assume c: "c \<in> set (x # rest)"
      show "\<not> closed (receive r1 c) \<and> length (buf (receive r1 c)) < cap (receive r1 c)"
      proof (cases "c = x")
        case True
        with assms ne show ?thesis by (simp add: r1_def)
      next
        case False
        with c sp show ?thesis by (simp add: r1_def)
      qed
    qed
    from forward_loop_Done[OF dist sp1, of msg] obtain r' where
      r': "forward_loop msg (x # rest) r1 = Done r'"
        "\<forall>c. receive r' c = (if c \<in> set (x # rest)
            then (receive r1 c)\<lparr>buf := buf (receive r1 c) @ [msg]\<rparr> else receive r1 c)"
      by blast
    from steps_follow_forward_loop[OF r'(1)]
    have "steps (replicate (Suc (length rest)) Send) (Sending msg (x # rest), r1) = Ok (AtSelect, r')"
      by simp
    with d have run: "steps (Drain x # replicate (Suc (length rest)) Send) (Sending msg (x # rest), r) =
                 Ok (AtSelect, r')"
      by simp
    have "receive r' c = (receive r c)\<lparr>buf := buf (receive r c) @ [msg]\<rparr>" if "c \<in> set rest" for c
    proof -
      from that xr have "c \<noteq> x" by auto
      with that r'(2) show ?thesis by (simp add: r1_def)
    qed
    with run show ?thesis by blast
  qed
  from 1 2 3 4 5 6 7 show ?thesis by blast
qed

theorem full_queue_blocks_the_loop_witness:
  "step Send (Sending ''hi'' [1, 2], room_full) = Blocks \<and>
   step (Take (Leave 1)) (Sending ''hi'' [1, 2], room_full) = Blocks \<and>
   (\<exists>r'. steps [Drain 1, Send, Send] (Sending ''hi'' [1, 2], room_full) = Ok (AtSelect, r') \<and>
      receive r' 2 = \<lparr>buf = [''hi''], cap = messageBufferSize, closed = False\<rparr>)"
proof -
  have a: "\<not> closed (receive room_full 1)" by (simp add: room_full_def)
  have b: "cap (receive room_full 1) = messageBufferSize" by (simp add: room_full_def)
  have c: "length (buf (receive room_full 1)) = messageBufferSize" by (simp add: room_full_def)
  note t = full_queue_blocks_the_loop [OF a b c, of "''hi''" "[2]"]
  have h: "distinct [1, 2::nat] \<and>
     (\<forall>c \<in> set [2]. \<not> closed (receive room_full c) \<and>
        length (buf (receive room_full c)) < cap (receive room_full c))"
    by (simp add: room_full_def make_chan_def messageBufferSize_def)
  from t h obtain r' where
    r': "steps (Drain 1 # replicate (Suc (length [2::nat])) Send) (Sending ''hi'' [1, 2], room_full) =
          Ok (AtSelect, r')"
      "\<forall>c \<in> set [2]. receive r' c = (receive room_full c)\<lparr>buf := buf (receive room_full c) @ [''hi'']\<rparr>"
    by blast
  from r'(1) have "steps [Drain 1, Send, Send] (Sending ''hi'' [1, 2], room_full) = Ok (AtSelect, r')"
    by (simp add: numeral_2_eq_2)
  moreover from r'(2) have "receive r' 2 = \<lparr>buf = [''hi''], cap = messageBufferSize, closed = False\<rparr>"
    by (simp add: room_full_def make_chan_def)
  moreover from t have "step Send (Sending ''hi'' [1, 2], room_full) = Blocks"
    "step (Take (Leave 1)) (Sending ''hi'' [1, 2], room_full) = Blocks"
    by blast+
  ultimately show ?thesis by blast
qed

text \<open>
  A leave of \<open>x\<close> does not end the suspension: with the channel of client 1 full and the
  loop in the send to it, the leave of client 1 is not taken, the send stays suspended,
  and the leave followed by the send is not a run of the program.
\<close>

theorem leave_does_not_unblock_counterexample:
  "step Send (Sending ''hi'' [1, 2], room_full) = Blocks \<and>
   step (Take (Leave 1)) (Sending ''hi'' [1, 2], room_full) = Blocks \<and>
   steps [Take (Leave 1), Send] (Sending ''hi'' [1, 2], room_full) = Blocks"
  by (simp add: room_full_def chan_send_def)

section \<open>Facts about the registry\<close>

lemma getRoom_found: "rooms s n = Some p \<Longrightarrow> getRoom n s = (p, s)"
  by (simp add: getRoom_def)

lemma getRoom_absent:
  "rooms s n = None \<Longrightarrow>
   getRoom n s = (made s, s\<lparr>rooms := (rooms s)(n \<mapsto> made s), made := Suc (made s),
                            running := running s @ [made s]\<rparr>)"
  by (simp add: getRoom_def newRoom_def Let_def)

lemma card_new_names:
  assumes "n \<notin> D"
  shows "card (insert n (set ns) - D) = Suc (card (set ns - insert n D))"
proof -
  from assms have "insert n (set ns) - D = insert n (set ns - insert n D)" by auto
  moreover have "n \<notin> set ns - insert n D" by simp
  moreover have "finite (set ns - insert n D)" by simp
  ultimately show ?thesis by simp
qed

lemma getRooms_effect:
  "getRooms names s = (ps, s') \<Longrightarrow>
   length ps = length names \<and>
   (\<forall>n q. rooms s n = Some q \<longrightarrow> rooms s' n = Some q) \<and>
   (\<forall>i<length names. rooms s' (names ! i) = Some (ps ! i)) \<and>
   made s' = made s + card (set names - dom (rooms s)) \<and>
   running s' = running s @ [made s..<made s']"
proof (induction names arbitrary: s ps s')
  case Nil
  then show ?case by simp
next
  case (Cons n ns)
  obtain p s1 where g: "getRoom n s = (p, s1)" by (cases "getRoom n s")
  obtain qs s2 where gs: "getRooms ns s1 = (qs, s2)" by (cases "getRooms ns s1")
  from Cons.prems g gs have eq: "ps = p # qs" "s' = s2" by simp_all
  note IH = Cons.IH[OF gs]
  have look: "rooms s1 n = Some p" using g by (auto simp: getRoom_def newRoom_def Let_def split: option.splits)
  have keep: "\<forall>m q. rooms s m = Some q \<longrightarrow> rooms s1 m = Some q"
    using g by (auto simp: getRoom_def newRoom_def Let_def split: option.splits)
  have cnt: "made s1 + card (set ns - dom (rooms s1)) = made s + card (set (n # ns) - dom (rooms s))
      \<and> running s1 @ [made s1..<made s1 + card (set ns - dom (rooms s1))] =
        running s @ [made s..<made s + card (set (n # ns) - dom (rooms s))]"
  proof (cases "rooms s n")
    case None
    then have nd: "n \<notin> dom (rooms s)" by auto
    from None g have s1: "s1 = s\<lparr>rooms := (rooms s)(n \<mapsto> made s), made := Suc (made s),
                            running := running s @ [made s]\<rparr>"
      unfolding getRoom_absent[OF None] by auto
    have c: "card (set (n # ns) - dom (rooms s)) = Suc (card (set ns - dom (rooms s1)))"
      using card_new_names[OF nd, of ns] s1 by simp
    have "[made s..<made s + Suc k] = made s # [Suc (made s)..<Suc (made s) + k]" for k
      by (simp add: upt_conv_Cons)
    with c s1 show ?thesis by simp
  next
    case (Some q)
    with g have s1: "s1 = s" by (simp add: getRoom_found)
    from Some have "n \<in> dom (rooms s)" by auto
    then have "set (n # ns) - dom (rooms s) = set ns - dom (rooms s)" by auto
    with s1 show ?thesis by simp
  qed
  have 1: "length ps = length (n # ns)" using IH eq by simp
  have 2: "\<forall>m q. rooms s m = Some q \<longrightarrow> rooms s' m = Some q" using IH keep eq by blast
  have 3: "\<forall>i<length (n # ns). rooms s' ((n # ns) ! i) = Some (ps ! i)"
  proof (intro allI impI)
    fix i assume "i < length (n # ns)"
    show "rooms s' ((n # ns) ! i) = Some (ps ! i)"
    proof (cases i)
      case 0
      with look IH eq show ?thesis by simp
    next
      case (Suc j)
      with \<open>i < length (n # ns)\<close> IH eq show ?thesis by simp
    qed
  qed
  have 4: "made s' = made s + card (set (n # ns) - dom (rooms s))"
  proof -
    from IH have "made s2 = made s1 + card (set ns - dom (rooms s1))" by blast
    also from cnt have "\<dots> = made s + card (set (n # ns) - dom (rooms s))" by blast
    finally show ?thesis unfolding eq(2) .
  qed
  have m2: "made s2 = made s1 + card (set ns - dom (rooms s1))" using IH by blast
  have r2: "running s2 = running s1 @ [made s1..<made s2]" using IH by blast
  have 5: "running s' = running s @ [made s..<made s']"
  proof -
    have "running s2 = running s1 @ [made s1..<made s1 + card (set ns - dom (rooms s1))]"
      using r2 unfolding m2 .
    also have "\<dots> = running s @ [made s..<made s + card (set (n # ns) - dom (rooms s))]"
      using cnt by blast
    also have "made s + card (set (n # ns) - dom (rooms s)) = made s'"
      using 4 by (rule sym)
    finally show ?thesis unfolding eq(2) .
  qed
  from 1 2 3 4 5 show ?case by blast
qed

text \<open>
  C3. For calls of \<^verbatim>\<open>getRoom\<close> in any order of taking the lock: calls with the same name
  return the same room, the room the registry holds for the name afterwards; a name the
  registry holds already gets its room back with the registry unchanged; the number of
  rooms made grows by the number of distinct names that were absent, one room for each,
  and exactly the rooms made have their loop started. One call makes a room only when the
  name is absent.
\<close>

theorem getRoom_single_instance:
  assumes "getRooms names s = (ps, s')"
  shows "length ps = length names \<and>
    (\<forall>i<length names. \<forall>j<length names. names ! i = names ! j \<longrightarrow> ps ! i = ps ! j) \<and>
    (\<forall>i<length names. rooms s' (names ! i) = Some (ps ! i)) \<and>
    (\<forall>n q. rooms s n = Some q \<longrightarrow> rooms s' n = Some q \<and> getRoom n s = (q, s)) \<and>
    made s' = made s + card (set names - dom (rooms s)) \<and>
    running s' = running s @ [made s..<made s'] \<and>
    (\<forall>n. made (snd (getRoom n s)) = (if rooms s n = None then Suc (made s) else made s))"
proof -
  note e = getRooms_effect[OF assms]
  have same: "\<forall>i<length names. \<forall>j<length names. names ! i = names ! j \<longrightarrow> ps ! i = ps ! j"
  proof (intro allI impI)
    fix i j assume ij: "i < length names" "j < length names" "names ! i = names ! j"
    from e have l: "\<forall>i<length names. rooms s' (names ! i) = Some (ps ! i)" by blast
    from l ij(1) have "rooms s' (names ! i) = Some (ps ! i)" by blast
    moreover from l ij(2) have "rooms s' (names ! j) = Some (ps ! j)" by blast
    ultimately show "ps ! i = ps ! j" using ij(3) by simp
  qed
  have one: "\<forall>n. made (snd (getRoom n s)) = (if rooms s n = None then Suc (made s) else made s)"
    by (auto simp: getRoom_def newRoom_def Let_def)
  from e have 1: "length ps = length names"
    and 3: "\<forall>i<length names. rooms s' (names ! i) = Some (ps ! i)"
    and k: "\<forall>n q. rooms s n = Some q \<longrightarrow> rooms s' n = Some q"
    and 5: "made s' = made s + card (set names - dom (rooms s))"
    and 6: "running s' = running s @ [made s..<made s']"
    by blast+
  from k have 4: "\<forall>n q. rooms s n = Some q \<longrightarrow> rooms s' n = Some q \<and> getRoom n s = (q, s)"
    using getRoom_found by blast
  from 1 same 3 4 5 6 one show ?thesis by (intro conjI)
qed

theorem getRoom_single_instance_witness:
  "getRooms [''alpha'', ''beta'', ''alpha'', ''alpha''] server0 =
     ([0, 1, 0, 0], \<lparr>rooms = [''alpha'' \<mapsto> 0, ''beta'' \<mapsto> 1], made = 2, running = [0, 1]\<rparr>) \<and>
   made (snd (getRooms [''alpha'', ''beta'', ''alpha'', ''alpha''] server0)) =
     card {''alpha'', ''beta''}"
proof -
  have g: "getRooms [''alpha'', ''beta'', ''alpha'', ''alpha''] server0 =
     ([0, 1, 0, 0], \<lparr>rooms = [''alpha'' \<mapsto> 0, ''beta'' \<mapsto> 1], made = 2, running = [0, 1]\<rparr>)"
    by (simp add: getRoom_def newRoom_def server0_def Let_def)
  from getRoom_single_instance [OF g] show ?thesis using g by (simp add: server0_def)
qed

section \<open>The upgrade route and the payload\<close>

text \<open>
  A request that names a room and is upgraded: the client gets a channel of 256 slots and
  the name user followed by the number drawn, and is handed to the room \<^verbatim>\<open>getRoom\<close>
  returned.
\<close>

lemma ServeHTTP_joins:
  assumes "query_get ''room'' (query req) = roomName" and "roomName \<noteq> []"
    and "upgrade req = Some sock"
  shows "ServeHTTP upgrade n req s =
    (JoinSent \<lparr>socket = sock, room_of = fst (getRoom roomName s),
               recv = \<lparr>buf = [], cap = 256, closed = False\<rparr>, name = ''user'' @ decimal n\<rparr>,
     snd (getRoom roomName s))"
  using assms
  by (simp add: ServeHTTP_def make_chan_def messageBufferSize_def split: prod.splits)

lemma decimal_examples: "decimal 7 = ''7'' \<and> decimal 42 = ''42'' \<and> decimal 999 = ''999''"
  by code_simp

text \<open>
  C6. When the \<^verbatim>\<open>room\<close> parameter is absent or empty, the handler of \<^verbatim>\<open>/room\<close> and
  \<^verbatim>\<open>ServeHTTP\<close> itself answer 400 Bad Request: no client is made and the registry is
  as before.
\<close>

theorem missing_room_is_bad_request:
  assumes "query_get ''room'' (query req) = []"
  shows "room_handler upgrade n req s = (HttpError 400 ''Missing room parameter'', s) \<and>
         ServeHTTP upgrade n req s = (HttpError 400 ''Missing room parameter'', s)"
  using assms by (simp add: room_handler_def ServeHTTP_def StatusBadRequest_def)

theorem missing_room_is_bad_request_witness:
  "room_handler Some 7 req_none server0 = (HttpError 400 ''Missing room parameter'', server0) \<and>
   room_handler Some 7 req_empty server0 = (HttpError 400 ''Missing room parameter'', server0) \<and>
   ServeHTTP Some 7 req_empty server0 = (HttpError 400 ''Missing room parameter'', server0)"
proof -
  have a: "query_get ''room'' (query req_none) = []" by (simp add: query_get_def req_none_def)
  have b: "query_get ''room'' (query req_empty) = []" by (simp add: query_get_def req_empty_def)
  from missing_room_is_bad_request [OF a, of Some 7 server0]
    missing_room_is_bad_request [OF b, of Some 7 server0]
  show ?thesis by simp
qed

text \<open>
  C8. With a non-empty \<^verbatim>\<open>room\<close> parameter \<^verbatim>\<open>ServeHTTP\<close> leaves the registry as
  \<^verbatim>\<open>getRoom\<close> leaves it, whatever the upgrade does. When the upgrade fails, no client is
  made, and a room made for a name that was absent stays in the registry with its loop
  started.
\<close>

theorem failed_upgrade_keeps_new_room:
  assumes "query_get ''room'' (query req) = roomName" and "roomName \<noteq> []"
  shows "snd (ServeHTTP upgrade n req s) = snd (getRoom roomName s) \<and>
    (upgrade req = None \<longrightarrow>
       ServeHTTP upgrade n req s = (UpgradeFailed, snd (getRoom roomName s)) \<and>
       room_handler upgrade n req s = (UpgradeFailed, snd (getRoom roomName s)) \<and>
       (rooms s roomName = None \<longrightarrow>
          snd (getRoom roomName s) =
            s\<lparr>rooms := (rooms s)(roomName \<mapsto> made s), made := Suc (made s),
               running := running s @ [made s]\<rparr>))"
proof -
  obtain p s1 where g: "getRoom roomName s = (p, s1)" by (cases "getRoom roomName s")
  then have l: "rooms s1 roomName = Some p"
    by (auto simp: getRoom_def newRoom_def Let_def split: option.splits)
  then have g1: "getRoom roomName s1 = (p, s1)" by (rule getRoom_found)
  have 1: "snd (ServeHTTP upgrade n req s) = s1"
    using assms g by (simp add: ServeHTTP_def split: option.splits)
  have 2: "ServeHTTP upgrade n req s = (UpgradeFailed, s1)" if "upgrade req = None"
    using assms g that by (simp add: ServeHTTP_def)
  have 3: "room_handler upgrade n req s = (UpgradeFailed, s1)" if "upgrade req = None"
    using assms g g1 that by (simp add: room_handler_def ServeHTTP_def)
  have 4: "s1 = s\<lparr>rooms := (rooms s)(roomName \<mapsto> made s), made := Suc (made s),
               running := running s @ [made s]\<rparr>" if "rooms s roomName = None"
    using g unfolding getRoom_absent[OF that] by auto
  from 1 2 3 4 g show ?thesis by simp
qed

theorem failed_upgrade_keeps_new_room_witness:
  "ServeHTTP (\<lambda>r. None :: unit option) 7 req_lobby server0 =
     (UpgradeFailed, \<lparr>rooms = [''lobby'' \<mapsto> 0], made = 1, running = [0]\<rparr>)"
proof -
  have a: "query_get ''room'' (query req_lobby) = ''lobby''"
    by (simp add: query_get_def req_lobby_def)
  have b: "''lobby'' \<noteq> []" by simp
  from failed_upgrade_keeps_new_room [OF a b, of "\<lambda>r. None :: unit option" 7 server0]
  show ?thesis by (simp add: server0_def getRoom_def newRoom_def Let_def)
qed

lemma client_read_payloads:
  "client_read marshal nm fs =
     concat (map (\<lambda>f. case f of
                     Message msg \<Rightarrow> (case marshal (outgoing nm msg) of Inl e \<Rightarrow> [] | Inr js \<Rightarrow> [js])
                   | ReadError \<Rightarrow> [])
            (takeWhile (\<lambda>f. f \<noteq> ReadError) fs))"
proof (induction fs)
  case Nil
  then show ?case by simp
next
  case (Cons f fs)
  then show ?case by (cases f) (auto split: sum.splits)
qed

text \<open>
  C7. Every payload \<^verbatim>\<open>read\<close> sends to \<^verbatim>\<open>forward\<close> is the encoding, by \<^verbatim>\<open>json.Marshal\<close>, of
  a map with exactly the keys name and message: the name of the client and the text of
  one of the frames read. The record is a map, so the order of its two fields does not
  matter.
\<close>

theorem payload_is_name_message_record:
  assumes "p \<in> set (client_read marshal nm fs)"
  shows "\<exists>msg. Message msg \<in> set fs \<and> marshal (outgoing nm msg) = Inr p \<and>
           dom (outgoing nm msg) = {''name'', ''message''} \<and>
           outgoing nm msg ''name'' = Some nm \<and>
           outgoing nm msg ''message'' = Some msg \<and>
           outgoing nm msg = [''message'' \<mapsto> msg, ''name'' \<mapsto> nm]"
  using assms
proof (induction fs)
  case Nil
  then show ?case by simp
next
  case (Cons f fs)
  show ?case
  proof (cases f)
    case ReadError
    with Cons.prems show ?thesis by simp
  next
    case (Message msg)
    have rec: "dom (outgoing nm msg) = {''name'', ''message''} \<and>
           outgoing nm msg ''name'' = Some nm \<and>
           outgoing nm msg ''message'' = Some msg \<and>
           outgoing nm msg = [''message'' \<mapsto> msg, ''name'' \<mapsto> nm]"
      by (auto simp: outgoing_def)
    show ?thesis
    proof (cases "marshal (outgoing nm msg)")
      case (Inl e)
      with Cons.prems Message have "p \<in> set (client_read marshal nm fs)" by simp
      from Cons.IH[OF this] show ?thesis by auto
    next
      case (Inr js)
      show ?thesis
      proof (cases "p = js")
        case True
        from Message have "Message msg \<in> set (f # fs)" by simp
        moreover from Inr True have "marshal (outgoing nm msg) = Inr p" by simp
        ultimately show ?thesis using rec by blast
      next
        case False
        with Cons.prems Message Inr have "p \<in> set (client_read marshal nm fs)" by simp
        from Cons.IH[OF this] show ?thesis by auto
      qed
    qed
  qed
qed

theorem payload_is_name_message_record_witness:
  "client_read toy_marshal ''user7'' [Message ''hi'', Message [], Message ''yo'', ReadError, Message ''late'']
     = [''user7: hi'', ''user7: yo''] \<and>
   (\<exists>msg. toy_marshal (outgoing ''user7'' msg) = Inr ''user7: yo'' \<and>
      outgoing ''user7'' msg ''message'' = Some msg)"
proof -
  have r: "client_read toy_marshal ''user7'' [Message ''hi'', Message [], Message ''yo'', ReadError, Message ''late'']
     = [''user7: hi'', ''user7: yo'']"
    by (simp add: toy_marshal_def outgoing_def)
  then have "''user7: yo'' \<in> set (client_read toy_marshal ''user7''
      [Message ''hi'', Message [], Message ''yo'', ReadError, Message ''late''])" by simp
  from payload_is_name_message_record [OF this] r show ?thesis by blast
qed

end
